theory Spec2Isabelle
  imports Main "HOL-Library.Word"
begin

section \<open>Strings of the source language\<close>

text \<open>
  The chunking functions of \<^verbatim>\<open>src/app/api/lib/getUserAppRole.ts\<close> (lines 151-283, the
  text utilities imported by the dataset route) work on JavaScript strings. A JavaScript
  string is a sequence of 16-bit code units and \<^verbatim>\<open>length\<close> counts code units, so a string
  is a list of 16-bit words here. The limit \<^verbatim>\<open>maxCharLength\<close> is an integer (\<^typ>\<open>int\<close>):
  it may be zero or negative.
\<close>

type_synonym char16 = "16 word"
type_synonym jsstring = "char16 list"

text \<open>An ASCII literal as a JavaScript string, for readable examples.\<close>

definition js :: "string \<Rightarrow> jsstring" where
  "js s = map (\<lambda>c. of_nat (of_char c)) s"

definition SPACE :: char16 where
  "SPACE = 0x20"

definition NEWLINE :: char16 where
  "NEWLINE = 0x0A"

text \<open>
  The code units that \<^verbatim>\<open>String.prototype.trim\<close> strips: ECMAScript WhiteSpace (TAB, VT, FF,
  ZWNBSP and the Unicode space separators) and LineTerminator (LF, CR, LS, PS).
\<close>

definition isWhiteSpace :: "char16 \<Rightarrow> bool" where
  "isWhiteSpace c \<longleftrightarrow>
     c = 0x09 \<or> c = 0x0A \<or> c = 0x0B \<or> c = 0x0C \<or> c = 0x0D \<or> c = 0x20 \<or>
     c = 0xA0 \<or> c = 0x1680 \<or> (0x2000 \<le> c \<and> c \<le> 0x200A) \<or>
     c = 0x2028 \<or> c = 0x2029 \<or> c = 0x202F \<or> c = 0x205F \<or> c = 0x3000 \<or> c = 0xFEFF"

text \<open>\<^verbatim>\<open>s.trim()\<close>: leading and trailing white space removed.\<close>

definition trim :: "jsstring \<Rightarrow> jsstring" where
  "trim s = rev (dropWhile isWhiteSpace (rev (dropWhile isWhiteSpace s)))"

text \<open>
  \<^verbatim>\<open>s.split(sep)\<close> for a separator of one code unit: the pieces between the occurrences of
  the separator, in order; the result is never empty (\<^verbatim>\<open>"".split(sep)\<close> is \<^verbatim>\<open>[""]\<close>).
\<close>

fun split :: "char16 \<Rightarrow> jsstring \<Rightarrow> jsstring list" where
  "split sep [] = [[]]"
| "split sep (c # cs) =
     (if c = sep then [] # split sep cs
      else (c # hd (split sep cs)) # tl (split sep cs))"

text \<open>
  \<^verbatim>\<open>s.substring(start, end)\<close> clamps both indices to \<^verbatim>\<open>[0, s.length]\<close> and swaps them when
  \<^verbatim>\<open>start > end\<close>; \<^verbatim>\<open>s.substring(start)\<close> runs to the end of the string.
\<close>

definition substring :: "jsstring \<Rightarrow> int \<Rightarrow> int \<Rightarrow> jsstring" where
  "substring s start end =
     (let len = int (length s);
          a = max 0 (min start len);
          b = max 0 (min end len);
          lo = min a b;
          hi = max a b
      in take (nat (hi - lo)) (drop (nat lo) s))"

definition substring_from :: "jsstring \<Rightarrow> int \<Rightarrow> jsstring" where
  "substring_from s start = substring s start (int (length s))"

section \<open>Loops\<close>

text \<open>
  \<^verbatim>\<open>for (const x of xs) body\<close> over an array, with the loop's variables as an explicit
  state. The body returns \<open>None\<close> when it does not return.
\<close>

fun forEach :: "('a \<Rightarrow> 's \<Rightarrow> 's option) \<Rightarrow> 'a list \<Rightarrow> 's \<Rightarrow> 's option" where
  "forEach body [] st = Some st"
| "forEach body (x # xs) st =
     (case body x st of None \<Rightarrow> None | Some st' \<Rightarrow> forEach body xs st')"

section \<open>splitLongWord\<close>

text \<open>
  The \<^verbatim>\<open>while (currentPart.length > maxCharLength)\<close> loop of \<^verbatim>\<open>splitLongWord\<close>, on the
  state \<open>(parts, currentPart)\<close>. Taken alone it runs forever when the limit is not
  positive, so it is a partial function: \<open>None\<close> is "does not return".
\<close>

partial_function (option) splitLongWord_while ::
  "int \<Rightarrow> jsstring list \<Rightarrow> jsstring \<Rightarrow> (jsstring list \<times> jsstring) option" where
  "splitLongWord_while maxCharLength parts currentPart =
     (if int (length currentPart) > maxCharLength
      then splitLongWord_while maxCharLength
             (parts @ [substring currentPart 0 maxCharLength])
             (substring_from currentPart maxCharLength)
      else Some (parts, currentPart))"

declare splitLongWord_while.simps [code]

definition splitLongWord :: "jsstring \<Rightarrow> int \<Rightarrow> jsstring list option" where
  "splitLongWord word maxCharLength =
     (if word = [] \<or> maxCharLength \<le> 0 then Some []
      else case splitLongWord_while maxCharLength [] word of
             None \<Rightarrow> None
           | Some (parts, currentPart) \<Rightarrow>
               Some (if length currentPart > 0 then parts @ [currentPart] else parts))"

section \<open>splitParagraphByWords\<close>

text \<open>The body of the loop over the words, on the state \<open>(wordChunks, currentWordChunk)\<close>.\<close>

definition wordStep ::
  "int \<Rightarrow> jsstring \<Rightarrow> jsstring list \<times> jsstring \<Rightarrow> (jsstring list \<times> jsstring) option" where
  "wordStep maxCharLength word st =
     (case st of (wordChunks, currentWordChunk) \<Rightarrow>
        if length word = 0 then Some (wordChunks, currentWordChunk)
        else if int (length word) > maxCharLength then
          (let flushed = (if length currentWordChunk > 0
                          then (wordChunks @ [currentWordChunk], [])
                          else (wordChunks, currentWordChunk))
           in case splitLongWord word maxCharLength of
                None \<Rightarrow> None
              | Some pieces \<Rightarrow> Some (fst flushed @ pieces, snd flushed))
        else
          (let potentialSpace = (if length currentWordChunk > 0 then [SPACE] else [])
           in if int (length currentWordChunk) + int (length potentialSpace)
                   + int (length word) \<le> maxCharLength
              then Some (wordChunks, currentWordChunk @ potentialSpace @ word)
              else Some (if length currentWordChunk > 0
                         then wordChunks @ [currentWordChunk] else wordChunks,
                         word)))"

definition splitParagraphByWords :: "jsstring \<Rightarrow> int \<Rightarrow> jsstring list option" where
  "splitParagraphByWords paragraph maxCharLength =
     (if paragraph = [] \<or> maxCharLength \<le> 0 then Some []
      else case forEach (wordStep maxCharLength) (split SPACE paragraph) ([], []) of
             None \<Rightarrow> None
           | Some (wordChunks, currentWordChunk) \<Rightarrow>
               Some (if length currentWordChunk > 0
                     then wordChunks @ [currentWordChunk] else wordChunks))"

section \<open>chunkText\<close>

text \<open>
  The body of the loop over the paragraphs, on the state
  \<open>(allChunks, currentParagraphChunk)\<close>.
\<close>

definition paragraphStep ::
  "int \<Rightarrow> jsstring \<Rightarrow> jsstring list \<times> jsstring \<Rightarrow> (jsstring list \<times> jsstring) option" where
  "paragraphStep maxCharLength paragraph st =
     (case st of (allChunks, currentParagraphChunk) \<Rightarrow>
        if trim paragraph = [] then
          (if length currentParagraphChunk > 0 then
             (if int (length currentParagraphChunk) + 1 \<le> maxCharLength
              then Some (allChunks, currentParagraphChunk @ [NEWLINE])
              else Some (allChunks @ [currentParagraphChunk], []))
           else Some (allChunks, currentParagraphChunk))
        else if length currentParagraphChunk = 0 then
          (if int (length paragraph) \<le> maxCharLength
           then Some (allChunks, paragraph)
           else case splitParagraphByWords paragraph maxCharLength of
                  None \<Rightarrow> None
                | Some pieces \<Rightarrow> Some (allChunks @ pieces, currentParagraphChunk))
        else
          (if int (length currentParagraphChunk) + 1 + int (length paragraph)
                \<le> maxCharLength
           then Some (allChunks, currentParagraphChunk @ [NEWLINE] @ paragraph)
           else if int (length paragraph) \<le> maxCharLength
           then Some (allChunks @ [currentParagraphChunk], paragraph)
           else case splitParagraphByWords paragraph maxCharLength of
                  None \<Rightarrow> None
                | Some pieces \<Rightarrow> Some ((allChunks @ [currentParagraphChunk]) @ pieces, [])))"

definition chunkText :: "jsstring \<Rightarrow> int \<Rightarrow> jsstring list option" where
  "chunkText text maxCharLength =
     (if text = [] \<or> maxCharLength \<le> 0 then Some []
      else case forEach (paragraphStep maxCharLength) (split NEWLINE text) ([], []) of
             None \<Rightarrow> None
           | Some (allChunks, currentParagraphChunk) \<Rightarrow>
               Some (filter (\<lambda>chunk. trim chunk \<noteq> [])
                       (if length currentParagraphChunk > 0
                        then allChunks @ [currentParagraphChunk] else allChunks)))"

text \<open>The default limit: \<^verbatim>\<open>chunkText(text)\<close> is \<^verbatim>\<open>chunkText(text, 4000)\<close>.\<close>

definition MAX_EMBEDDING_CHUNK_CHAR_LENGTH :: int where
  "MAX_EMBEDDING_CHUNK_CHAR_LENGTH = 4000"

section \<open>Predicates of the properties\<close>

text \<open>A string with every white-space code unit removed.\<close>

definition stripWhiteSpace :: "jsstring \<Rightarrow> jsstring" where
  "stripWhiteSpace s = filter (\<lambda>c. \<not> isWhiteSpace c) s"

text \<open>A string is blank when trimming leaves nothing.\<close>

definition blank :: "jsstring \<Rightarrow> bool" where
  "blank s \<longleftrightarrow> trim s = []"

definition leadingSpace :: "jsstring \<Rightarrow> bool" where
  "leadingSpace s \<longleftrightarrow> s \<noteq> [] \<and> hd s = SPACE"

definition trailingSpace :: "jsstring \<Rightarrow> bool" where
  "trailingSpace s \<longleftrightarrow> s \<noteq> [] \<and> last s = SPACE"

fun doubleSpace :: "jsstring \<Rightarrow> bool" where
  "doubleSpace [] = False"
| "doubleSpace [a] = False"
| "doubleSpace (a # b # s) = ((a = SPACE \<and> b = SPACE) \<or> doubleSpace (b # s))"

text \<open>No space at either end and no two spaces in a row.\<close>

definition tidy :: "jsstring \<Rightarrow> bool" where
  "tidy s \<longleftrightarrow> \<not> leadingSpace s \<and> \<not> trailingSpace s \<and> \<not> doubleSpace s"

text \<open>
  The longest run of consecutive newlines of a string, minus one: the number of
  consecutive blank lines it embeds at its widest gap.
\<close>

fun newlineRun :: "nat \<Rightarrow> nat \<Rightarrow> jsstring \<Rightarrow> nat" where
  "newlineRun run best [] = max run best"
| "newlineRun run best (c # s) =
     (if c = NEWLINE then newlineRun (Suc run) best s
      else newlineRun 0 (max run best) s)"

definition embeddedBlankLines :: "jsstring \<Rightarrow> nat" where
  "embeddedBlankLines s = newlineRun 0 0 s - 1"

text \<open>
  What the accumulator of \<^verbatim>\<open>chunkText\<close> holds after a non-blank paragraph \<open>p\<close> followed by
  the paragraphs \<open>ps\<close>, when all of it fits the limit: every paragraph adds one newline,
  and a non-blank one adds itself after it.
\<close>

definition accumulated :: "jsstring \<Rightarrow> jsstring list \<Rightarrow> jsstring" where
  "accumulated p ps = p @ concat (map (\<lambda>r. NEWLINE # (if blank r then [] else r)) ps)"

section \<open>Library facts\<close>

lemma substring_prefix: "substring s 0 m = take (nat m) s"
  by (simp add: substring_def Let_def min_def max_def)

lemma substring_from_drop: "substring_from s m = drop (nat m) s"
  by (simp add: substring_from_def substring_def Let_def min_def max_def)

lemma split_nonempty: "split sep s \<noteq> []"
  by (induction s) auto

lemma dropWhile_all_iff: "(\<forall>x \<in> set (dropWhile P s). P x) \<longleftrightarrow> dropWhile P s = []"
proof
  assume a: "\<forall>x \<in> set (dropWhile P s). P x"
  show "dropWhile P s = []"
  proof (rule ccontr)
    assume n: "dropWhile P s \<noteq> []"
    then have "\<not> P (hd (dropWhile P s))" by (rule hd_dropWhile)
    moreover from n have "hd (dropWhile P s) \<in> set (dropWhile P s)" by simp
    ultimately show False using a by blast
  qed
qed (auto dest: set_dropWhileD)

lemma trim_empty_iff: "trim s = [] \<longleftrightarrow> (\<forall>c \<in> set s. isWhiteSpace c)"
  by (simp add: trim_def dropWhile_all_iff)

section \<open>Facts about the loops\<close>

subsection \<open>The while loop of splitLongWord returns\<close>

lemma splitLongWord_while_total:
  "0 < m \<Longrightarrow>
   \<exists>ps r. splitLongWord_while m parts cur = Some (parts @ ps, r) \<and>
          concat ps @ r = cur \<and> (\<forall>p \<in> set ps. int (length p) = m) \<and>
          int (length r) \<le> m \<and> (cur \<noteq> [] \<longrightarrow> r \<noteq> [])"
proof (induction cur arbitrary: parts rule: length_induct)
  case (1 cur)
  show ?case
  proof (cases "int (length cur) > m")
    case False
    then have "splitLongWord_while m parts cur = Some (parts @ [], cur)"
      by (subst splitLongWord_while.simps) simp
    with False show ?thesis by force
  next
    case True
    let ?h = "take (nat m) cur" and ?t = "drop (nat m) cur"
    from True 1(2) have lt: "length ?t < length cur" by simp
    from True 1(2) have tne: "?t \<noteq> []" by simp
    from 1(1) lt 1(2) obtain ps r where
      IH: "splitLongWord_while m ((parts @ [?h]) @ []) ?t = Some ((parts @ [?h]) @ ps, r)"
        "concat ps @ r = ?t" "\<forall>p \<in> set ps. int (length p) = m" "int (length r) \<le> m"
        "?t \<noteq> [] \<longrightarrow> r \<noteq> []"
      by (metis append_Nil2)
    have "splitLongWord_while m parts cur = splitLongWord_while m (parts @ [?h]) ?t"
      using True by (subst splitLongWord_while.simps) (simp add: substring_prefix substring_from_drop)
    with IH(1) have e: "splitLongWord_while m parts cur = Some (parts @ (?h # ps), r)" by simp
    have c: "concat (?h # ps) @ r = cur" using IH(2) by simp
    have l: "\<forall>p \<in> set (?h # ps). int (length p) = m" using IH(3) True 1(2) by auto
    from e c l IH(4) IH(5) tne show ?thesis by blast
  qed
qed


text \<open>
  Without the guard of \<^verbatim>\<open>splitLongWord\<close> the loop would not return for a limit that is
  not positive: each iteration leaves the remaining word as it is.
\<close>

lemma splitLongWord_while_needs_guard:
  assumes "splitLongWord_while m parts cur = Some r"
  shows "m \<le> 0 \<longrightarrow> int (length cur) \<le> m"
proof (rule splitLongWord_while.raw_induct
         [where P = "\<lambda>m parts cur r. m \<le> 0 \<longrightarrow> int (length cur) \<le> m", OF _ assms])
  fix f m parts cur r
  assume IH: "\<And>m parts cur r. f m parts cur = Some r \<Longrightarrow> m \<le> 0 \<longrightarrow> int (length cur) \<le> m"
    and step: "(if m < int (length cur)
                then f m (parts @ [substring cur 0 m]) (substring_from cur m)
                else Some (parts, cur)) = Some r"
  show "m \<le> 0 \<longrightarrow> int (length cur) \<le> m"
  proof (intro impI, rule ccontr)
    assume a: "m \<le> 0" "\<not> int (length cur) \<le> m"
    with step have "f m (parts @ [substring cur 0 m]) cur = Some r"
      by (simp add: substring_from_drop)
    from IH [OF this] a show False by simp
  qed
qed

lemma splitLongWord_while_diverges:
  "m \<le> 0 \<Longrightarrow> m < int (length cur) \<Longrightarrow> splitLongWord_while m parts cur = None"
  using splitLongWord_while_needs_guard [of m parts cur]
  by (cases "splitLongWord_while m parts cur") auto

lemma splitLongWord_pos:
  assumes "0 < m" "w \<noteq> []"
  shows "\<exists>ps r. splitLongWord w m = Some (ps @ [r]) \<and> concat ps @ r = w \<and>
           (\<forall>p \<in> set ps. int (length p) = m) \<and> r \<noteq> [] \<and> int (length r) \<le> m \<and>
           (m < int (length w) \<longrightarrow> ps \<noteq> [])"
proof -
  from splitLongWord_while_total [OF assms(1), of "[]" w] assms(2) obtain ps r where
    h: "splitLongWord_while m [] w = Some (ps, r)" "concat ps @ r = w"
       "\<forall>p \<in> set ps. int (length p) = m" "int (length r) \<le> m" "r \<noteq> []"
    by auto
  from h(1) h(5) assms have "splitLongWord w m = Some (ps @ [r])"
    by (simp add: splitLongWord_def)
  moreover have "m < int (length w) \<longrightarrow> ps \<noteq> []" using h(2) h(4) by auto
  ultimately show ?thesis using h by blast
qed

lemma splitLongWord_degenerate: "w = [] \<or> m \<le> 0 \<Longrightarrow> splitLongWord w m = Some []"
  by (auto simp: splitLongWord_def)

lemma splitLongWord_returns: "\<exists>ps. splitLongWord w m = Some ps"
proof (cases "w = [] \<or> m \<le> 0")
  case True
  then show ?thesis by (simp add: splitLongWord_degenerate)
next
  case False
  then show ?thesis using splitLongWord_pos [of m w] by auto
qed

subsection \<open>Invariants of a for loop\<close>

lemma forEach_invariant:
  assumes "I pre st"
    and "\<And>pre x s. I pre s \<Longrightarrow> x \<in> set xs \<Longrightarrow> \<exists>s'. body x s = Some s' \<and> I (pre @ [x]) s'"
  shows "\<exists>st'. forEach body xs st = Some st' \<and> I (pre @ xs) st'"
  using assms
proof (induction xs arbitrary: pre st)
  case Nil
  then show ?case by simp
next
  case (Cons x xs)
  from Cons.prems obtain s' where s': "body x st = Some s'" "I (pre @ [x]) s'"
    by (meson list.set_intros(1))
  have "\<exists>st'. forEach body xs s' = Some st' \<and> I ((pre @ [x]) @ xs) st'"
    by (rule Cons.IH [OF s'(2)]) (use Cons.prems(2) in auto)
  with s'(1) show ?case by simp
qed

lemma forEach_returns:
  assumes "\<And>x s. \<exists>s'. body x s = Some s'"
  shows "\<exists>st'. forEach body xs st = Some st'"
proof (induction xs arbitrary: st)
  case Nil
  show ?case by simp
next
  case (Cons x xs)
  obtain s' where "body x st = Some s'" using assms by blast
  with Cons.IH [of s'] show ?case by simp
qed

subsection \<open>Every function returns, and chunks stay within the limit\<close>

lemma wordStep_returns: "\<exists>s'. wordStep m w s = Some s'"
proof -
  obtain ps where "splitLongWord w m = Some ps" using splitLongWord_returns by blast
  then show ?thesis by (cases s) (simp add: wordStep_def Let_def)
qed

lemma wordStep_bound:
  assumes "0 < m" "wordStep m w (chunks, cur) = Some (chunks', cur')"
    and "\<forall>c \<in> set chunks. int (length c) \<le> m" "int (length cur) \<le> m"
  shows "(\<forall>c \<in> set chunks'. int (length c) \<le> m) \<and> int (length cur') \<le> m"
proof (cases "w = []")
  case True
  with assms show ?thesis by (simp add: wordStep_def)
next
  case False
  show ?thesis
  proof (cases "m < int (length w)")
    case True
    from splitLongWord_pos [OF assms(1) False] obtain ps r where
      h: "splitLongWord w m = Some (ps @ [r])" "\<forall>p \<in> set ps. int (length p) = m"
         "int (length r) \<le> m"
      by blast
    with assms True False show ?thesis
      by (auto simp: wordStep_def Let_def split: if_splits)
  next
    case F2: False
    with assms False show ?thesis
      by (auto simp: wordStep_def Let_def split: if_splits)
  qed
qed


lemma splitParagraphByWords_returns: "\<exists>cs. splitParagraphByWords p m = Some cs"
proof -
  have "\<exists>st'. forEach (wordStep m) (split SPACE p) ([], []) = Some st'"
    by (rule forEach_returns) (rule wordStep_returns)
  then show ?thesis by (auto simp: splitParagraphByWords_def)
qed

lemma splitParagraphByWords_bound:
  assumes "0 < m" "splitParagraphByWords p m = Some cs"
  shows "\<forall>c \<in> set cs. int (length c) \<le> m"
proof -
  let ?I = "\<lambda>(pre :: jsstring list) (s :: jsstring list \<times> jsstring).
              (\<forall>c \<in> set (fst s). int (length c) \<le> m) \<and> int (length (snd s)) \<le> m"
  have "\<exists>st'. forEach (wordStep m) (split SPACE p) ([], []) = Some st' \<and>
          ?I ([] @ split SPACE p) st'"
  proof (rule forEach_invariant [where I = ?I])
    show "?I [] ([], [])" using assms(1) by simp
  next
    fix pre x s
    assume i: "?I pre s" and "x \<in> set (split SPACE p)"
    obtain s' where s': "wordStep m x s = Some s'" using wordStep_returns by blast
    with i wordStep_bound [OF assms(1), of x "fst s" "snd s" "fst s'" "snd s'"]
    show "\<exists>s'. wordStep m x s = Some s' \<and> ?I (pre @ [x]) s'" by simp
  qed
  with assms(2) show ?thesis
    by (auto simp: splitParagraphByWords_def split: if_splits)
qed

lemma paragraphStep_returns: "\<exists>s'. paragraphStep m p s = Some s'"
proof -
  obtain cs where "splitParagraphByWords p m = Some cs"
    using splitParagraphByWords_returns by blast
  then show ?thesis by (cases s) (simp add: paragraphStep_def)
qed

lemma paragraphStep_bound:
  assumes "0 < m" "paragraphStep m p (chunks, cur) = Some (chunks', cur')"
    and "\<forall>c \<in> set chunks. int (length c) \<le> m" "int (length cur) \<le> m"
  shows "(\<forall>c \<in> set chunks'. int (length c) \<le> m) \<and> int (length cur') \<le> m"
proof -
  obtain cs where cs: "splitParagraphByWords p m = Some cs"
    using splitParagraphByWords_returns by blast
  then have "\<forall>c \<in> set cs. int (length c) \<le> m"
    using splitParagraphByWords_bound [OF assms(1)] by blast
  with assms cs show ?thesis
    by (auto simp: paragraphStep_def split: if_splits)
qed

lemma chunkText_returns: "\<exists>cs. chunkText t m = Some cs"
proof -
  have "\<exists>st'. forEach (paragraphStep m) (split NEWLINE t) ([], []) = Some st'"
    by (rule forEach_returns) (rule paragraphStep_returns)
  then show ?thesis by (auto simp: chunkText_def)
qed

lemma chunkText_bound:
  assumes "0 < m" "chunkText t m = Some cs"
  shows "\<forall>c \<in> set cs. int (length c) \<le> m"
proof -
  let ?I = "\<lambda>(pre :: jsstring list) (s :: jsstring list \<times> jsstring).
              (\<forall>c \<in> set (fst s). int (length c) \<le> m) \<and> int (length (snd s)) \<le> m"
  have "\<exists>st'. forEach (paragraphStep m) (split NEWLINE t) ([], []) = Some st' \<and>
          ?I ([] @ split NEWLINE t) st'"
  proof (rule forEach_invariant [where I = ?I])
    show "?I [] ([], [])" using assms(1) by simp
  next
    fix pre x s
    assume i: "?I pre s" and "x \<in> set (split NEWLINE t)"
    obtain s' where s': "paragraphStep m x s = Some s'" using paragraphStep_returns by blast
    with i paragraphStep_bound [OF assms(1), of x "fst s" "snd s" "fst s'" "snd s'"]
    show "\<exists>s'. paragraphStep m x s = Some s' \<and> ?I (pre @ [x]) s'" by simp
  qed
  with assms(2) show ?thesis
    by (auto simp: chunkText_def split: if_splits)
qed

subsection \<open>The content is preserved up to white space\<close>

lemma split_concat: "concat (split sep s) = filter (\<lambda>c. c \<noteq> sep) s"
proof (induction s)
  case Nil
  show ?case by simp
next
  case (Cons c s)
  have "hd (split sep s) @ concat (tl (split sep s)) = concat (split sep s)"
    using split_nonempty [of sep s] by (cases "split sep s") simp_all
  with Cons show ?case by simp
qed

lemma split_no_sep: "x \<in> set (split sep s) \<Longrightarrow> sep \<notin> set x"
proof (induction s arbitrary: x)
  case Nil
  then show ?case by simp
next
  case (Cons c s)
  obtain y ys where y: "split sep s = y # ys"
    using split_nonempty [of sep s] by (cases "split sep s") auto
  with Cons.IH have "sep \<notin> set y" "\<And>z. z \<in> set ys \<Longrightarrow> sep \<notin> set z" by auto
  with Cons.prems y show ?case by (auto split: if_splits)
qed

lemma stripWhiteSpace_append [simp]:
  "stripWhiteSpace (a @ b) = stripWhiteSpace a @ stripWhiteSpace b"
  by (simp add: stripWhiteSpace_def)

lemma stripWhiteSpace_split:
  "isWhiteSpace sep \<Longrightarrow> stripWhiteSpace (concat (split sep s)) = stripWhiteSpace s"
  by (auto simp: split_concat stripWhiteSpace_def intro: filter_cong)

lemma stripWhiteSpace_blank: "trim s = [] \<Longrightarrow> stripWhiteSpace s = []"
  by (simp add: trim_empty_iff stripWhiteSpace_def)

lemma stripWhiteSpace_nonblank:
  "stripWhiteSpace (concat (filter (\<lambda>c. trim c \<noteq> []) cs)) = stripWhiteSpace (concat cs)"
  by (induction cs) (simp_all add: stripWhiteSpace_blank)

lemma isWhiteSpace_SPACE: "isWhiteSpace SPACE"
  by (simp add: isWhiteSpace_def SPACE_def)

lemma isWhiteSpace_NEWLINE: "isWhiteSpace NEWLINE"
  by (simp add: isWhiteSpace_def NEWLINE_def)

lemma stripWhiteSpace_SPACE [simp]: "stripWhiteSpace (SPACE # s) = stripWhiteSpace s"
  by (simp add: stripWhiteSpace_def isWhiteSpace_SPACE)

lemma stripWhiteSpace_NEWLINE [simp]: "stripWhiteSpace (NEWLINE # s) = stripWhiteSpace s"
  by (simp add: stripWhiteSpace_def isWhiteSpace_NEWLINE)

lemma stripWhiteSpace_Nil [simp]: "stripWhiteSpace [] = []"
  by (simp add: stripWhiteSpace_def)

lemma wordStep_content:
  assumes "0 < m" "wordStep m w (chunks, cur) = Some (chunks', cur')"
  shows "stripWhiteSpace (concat chunks' @ cur') = stripWhiteSpace (concat chunks @ cur @ w)"
proof (cases "w = []")
  case True
  with assms show ?thesis by (simp add: wordStep_def)
next
  case False
  show ?thesis
  proof (cases "m < int (length w)")
    case True
    from splitLongWord_pos [OF assms(1) False] obtain ps r where
      h: "splitLongWord w m = Some (ps @ [r])" "concat ps @ r = w"
      by blast
    with assms True False show ?thesis
      by (auto simp: wordStep_def Let_def split: if_splits)
  next
    case F2: False
    with assms False show ?thesis
      by (auto simp: wordStep_def Let_def split: if_splits)
  qed
qed

lemma splitParagraphByWords_content:
  assumes "0 < m" "splitParagraphByWords p m = Some cs"
  shows "stripWhiteSpace (concat cs) = stripWhiteSpace p"
proof -
  let ?I = "\<lambda>(pre :: jsstring list) (s :: jsstring list \<times> jsstring).
              stripWhiteSpace (concat (fst s) @ snd s) = stripWhiteSpace (concat pre)"
  have "\<exists>st'. forEach (wordStep m) (split SPACE p) ([], []) = Some st' \<and>
          ?I ([] @ split SPACE p) st'"
  proof (rule forEach_invariant [where I = ?I])
    show "?I [] ([], [])" by simp
  next
    fix pre x s
    assume i: "?I pre s" and "x \<in> set (split SPACE p)"
    obtain s' where s': "wordStep m x s = Some s'" using wordStep_returns by blast
    with i wordStep_content [OF assms(1), of x "fst s" "snd s" "fst s'" "snd s'"]
    show "\<exists>s'. wordStep m x s = Some s' \<and> ?I (pre @ [x]) s'" by simp
  qed
  then obtain chunks cur where
    e: "forEach (wordStep m) (split SPACE p) ([], []) = Some (chunks, cur)"
       "stripWhiteSpace (concat chunks @ cur) = stripWhiteSpace (concat (split SPACE p))"
    by auto
  from e(2) have "stripWhiteSpace (concat chunks @ cur) = stripWhiteSpace p"
    by (simp add: stripWhiteSpace_split isWhiteSpace_SPACE)
  with assms e(1) show ?thesis
    by (auto simp: splitParagraphByWords_def split: if_splits)
qed

lemma paragraphStep_content:
  assumes "0 < m" "paragraphStep m p (chunks, cur) = Some (chunks', cur')"
  shows "stripWhiteSpace (concat chunks' @ cur') = stripWhiteSpace (concat chunks @ cur @ p)"
proof -
  obtain cs where cs: "splitParagraphByWords p m = Some cs"
    using splitParagraphByWords_returns by blast
  then have c: "stripWhiteSpace (concat cs) = stripWhiteSpace p"
    using splitParagraphByWords_content [OF assms(1)] by blast
  show ?thesis
  proof (cases "trim p = []")
    case True
    with assms show ?thesis
      by (auto simp: paragraphStep_def stripWhiteSpace_blank split: if_splits)
  next
    case False
    with assms cs c show ?thesis
      by (auto simp: paragraphStep_def split: if_splits)
  qed
qed

lemma chunkText_content:
  assumes "0 < m" "chunkText t m = Some cs"
  shows "stripWhiteSpace (concat cs) = stripWhiteSpace t"
proof (cases "t = []")
  case True
  with assms show ?thesis by (simp add: chunkText_def)
next
  case False
  let ?I = "\<lambda>(pre :: jsstring list) (s :: jsstring list \<times> jsstring).
              stripWhiteSpace (concat (fst s) @ snd s) = stripWhiteSpace (concat pre)"
  have "\<exists>st'. forEach (paragraphStep m) (split NEWLINE t) ([], []) = Some st' \<and>
          ?I ([] @ split NEWLINE t) st'"
  proof (rule forEach_invariant [where I = ?I])
    show "?I [] ([], [])" by simp
  next
    fix pre x s
    assume i: "?I pre s" and "x \<in> set (split NEWLINE t)"
    obtain s' where s': "paragraphStep m x s = Some s'" using paragraphStep_returns by blast
    with i paragraphStep_content [OF assms(1), of x "fst s" "snd s" "fst s'" "snd s'"]
    show "\<exists>s'. paragraphStep m x s = Some s' \<and> ?I (pre @ [x]) s'" by simp
  qed
  then obtain chunks cur where
    e: "forEach (paragraphStep m) (split NEWLINE t) ([], []) = Some (chunks, cur)"
       "stripWhiteSpace (concat chunks @ cur) = stripWhiteSpace (concat (split NEWLINE t))"
    by auto
  from e(2) have f: "stripWhiteSpace (concat chunks @ cur) = stripWhiteSpace t"
    by (simp add: stripWhiteSpace_split isWhiteSpace_NEWLINE)
  from assms False e(1) have
    "cs = filter (\<lambda>c. trim c \<noteq> []) (if length cur > 0 then chunks @ [cur] else chunks)"
    by (simp add: chunkText_def)
  then have "stripWhiteSpace (concat cs)
      = stripWhiteSpace (concat (if length cur > 0 then chunks @ [cur] else chunks))"
    by (simp only: stripWhiteSpace_nonblank)
  also have "\<dots> = stripWhiteSpace (concat chunks @ cur)" by simp
  finally show ?thesis using f by simp
qed


lemma chunkText_nonblank:
  assumes "chunkText t m = Some cs"
  shows "\<forall>c \<in> set cs. trim c \<noteq> []"
  using assms by (auto simp: chunkText_def split: if_splits option.splits)


subsection \<open>Spaces in the chunks of the word packer\<close>

lemma doubleSpace_append:
  "doubleSpace (a @ b) \<longleftrightarrow>
     doubleSpace a \<or> doubleSpace b \<or> (a \<noteq> [] \<and> b \<noteq> [] \<and> last a = SPACE \<and> hd b = SPACE)"
proof (induction a rule: doubleSpace.induct)
  case 1
  show ?case by simp
next
  case (2 x)
  show ?case by (cases b) auto
next
  case (3 x y s)
  then show ?case by auto
qed

lemma doubleSpace_no_space: "SPACE \<notin> set s \<Longrightarrow> \<not> doubleSpace s"
  by (induction s rule: doubleSpace.induct) auto

lemma ends_no_space: "SPACE \<notin> set s \<Longrightarrow> s \<noteq> [] \<Longrightarrow> hd s \<noteq> SPACE \<and> last s \<noteq> SPACE"
  by (metis hd_in_set last_in_set)

lemma tidy_no_space: "SPACE \<notin> set s \<Longrightarrow> tidy s"
  using ends_no_space [of s]
  by (auto simp: tidy_def leadingSpace_def trailingSpace_def doubleSpace_no_space)

lemma tidy_Nil: "tidy []"
  by (simp add: tidy_no_space)

lemma tidy_join:
  assumes "tidy cur" "cur \<noteq> []" "w \<noteq> []" "SPACE \<notin> set w"
  shows "tidy (cur @ [SPACE] @ w)"
proof -
  from assms(3,4) have hw: "hd w \<noteq> SPACE" "last w \<noteq> SPACE"
    using ends_no_space [of w] by auto
  from assms(1,2) have hc: "hd cur \<noteq> SPACE" "last cur \<noteq> SPACE" "\<not> doubleSpace cur"
    by (auto simp: tidy_def leadingSpace_def trailingSpace_def)
  have "\<not> doubleSpace (SPACE # w)"
    using assms(3,4) hw by (cases w) (auto simp: doubleSpace_no_space)
  then have "\<not> doubleSpace (cur @ SPACE # w)"
    using hc assms(2) by (simp add: doubleSpace_append)
  then show ?thesis
    using hc hw assms(2,3) by (simp add: tidy_def leadingSpace_def trailingSpace_def)
qed

lemma wordStep_tidy:
  assumes "0 < m" "wordStep m w (chunks, cur) = Some (chunks', cur')"
    and "SPACE \<notin> set w" "\<forall>c \<in> set chunks. tidy c" "tidy cur"
  shows "(\<forall>c \<in> set chunks'. tidy c) \<and> tidy cur'"
proof (cases "w = []")
  case True
  with assms show ?thesis by (simp add: wordStep_def)
next
  case False
  show ?thesis
  proof (cases "m < int (length w)")
    case True
    from splitLongWord_pos [OF assms(1) False] obtain ps r where
      h: "splitLongWord w m = Some (ps @ [r])" "concat ps @ r = w"
      by blast
    from h(2) assms(3) have "\<forall>p \<in> set ps. SPACE \<notin> set p" "SPACE \<notin> set r" by auto
    then have t: "\<forall>p \<in> set ps. tidy p" "tidy r" by (simp_all add: tidy_no_space)
    from assms(2) True False h(1) have
      "chunks' = (if length cur > 0 then chunks @ [cur] else chunks) @ ps @ [r]" "cur' = []"
      by (auto simp: wordStep_def Let_def split: if_splits)
    with t assms(4,5) show ?thesis by (auto simp: tidy_Nil)
  next
    case F2: False
    show ?thesis
    proof (cases "cur = []")
      case True
      with assms(2) False F2 have "chunks' = chunks" "cur' = w"
        by (auto simp: wordStep_def Let_def split: if_splits)
      with assms(3,4) show ?thesis by (simp add: tidy_no_space)
    next
      case F3: False
      with assms(2) False F2 have
        "(chunks' = chunks \<and> cur' = cur @ [SPACE] @ w) \<or> (chunks' = chunks @ [cur] \<and> cur' = w)"
        by (auto simp: wordStep_def Let_def split: if_splits)
      with assms(3,4,5) tidy_join [OF assms(5) F3 False assms(3)] show ?thesis
        by (auto simp: tidy_no_space)
    qed
  qed
qed

lemma splitParagraphByWords_tidy:
  assumes "0 < m" "splitParagraphByWords p m = Some cs"
  shows "\<forall>c \<in> set cs. tidy c"
proof -
  let ?I = "\<lambda>(pre :: jsstring list) (s :: jsstring list \<times> jsstring).
              (\<forall>c \<in> set (fst s). tidy c) \<and> tidy (snd s)"
  have "\<exists>st'. forEach (wordStep m) (split SPACE p) ([], []) = Some st' \<and>
          ?I ([] @ split SPACE p) st'"
  proof (rule forEach_invariant [where I = ?I])
    show "?I [] ([], [])" by (simp add: tidy_Nil)
  next
    fix pre x s
    assume i: "?I pre s" and x: "x \<in> set (split SPACE p)"
    obtain s' where s': "wordStep m x s = Some s'" using wordStep_returns by blast
    with i wordStep_tidy [OF assms(1) _ split_no_sep [OF x], of "fst s" "snd s" "fst s'" "snd s'"]
    show "\<exists>s'. wordStep m x s = Some s' \<and> ?I (pre @ [x]) s'" by simp
  qed
  with assms(2) show ?thesis
    by (auto simp: splitParagraphByWords_def split: if_splits)
qed


subsection \<open>Texts that fit one chunk\<close>

lemma split_join: "split sep s = p # ps \<Longrightarrow> s = p @ concat (map ((#) sep) ps)"
proof (induction s arbitrary: p ps)
  case Nil
  then show ?case by simp
next
  case (Cons c s)
  obtain y ys where y: "split sep s = y # ys"
    using split_nonempty [of sep s] by (cases "split sep s") auto
  from Cons.IH [OF y] have s: "s = y @ concat (map ((#) sep) ys)" .
  show ?case
  proof (cases "c = sep")
    case True
    with Cons.prems y have "p = []" "ps = y # ys" by simp_all
    with s True show ?thesis by simp
  next
    case False
    with Cons.prems y have "p = c # y" "ps = ys" by simp_all
    with s show ?thesis by simp
  qed
qed

lemma split_prefix:
  "sep \<notin> set a \<Longrightarrow> split sep (a @ r) = (a @ hd (split sep r)) # tl (split sep r)"
  using split_nonempty [of sep r] by (induction a) auto

lemma split_replicate: "split sep (replicate k sep @ r) = replicate k [] @ split sep r"
  by (induction k) auto

lemma split_single: "sep \<notin> set a \<Longrightarrow> split sep a = [a]"
  using split_prefix [of sep a "[]"] by simp

lemma paragraphStep_accumulates:
  assumes "cur \<noteq> []"
    and "\<forall>p \<in> set ps. trim p = [] \<longrightarrow> p = []"
    and "int (length (cur @ concat (map ((#) NEWLINE) ps))) \<le> m"
  shows "forEach (paragraphStep m) ps (chunks, cur)
           = Some (chunks, cur @ concat (map ((#) NEWLINE) ps))"
  using assms
proof (induction ps arbitrary: cur)
  case Nil
  show ?case by simp
next
  case (Cons p ps)
  have step: "paragraphStep m p (chunks, cur) = Some (chunks, cur @ NEWLINE # p)"
  proof (cases "trim p = []")
    case True
    with Cons.prems(2) have "p = []" by simp
    with Cons.prems(1,3) show ?thesis by (simp add: paragraphStep_def trim_def)
  next
    case False
    with Cons.prems(1,3) show ?thesis by (simp add: paragraphStep_def)
  qed
  have "forEach (paragraphStep m) ps (chunks, cur @ NEWLINE # p)
          = Some (chunks, (cur @ NEWLINE # p) @ concat (map ((#) NEWLINE) ps))"
    by (rule Cons.IH) (use Cons.prems in auto)
  with step show ?case by simp
qed

lemma chunkText_whole:
  assumes "int (length t) \<le> m"
    and "trim (hd (split NEWLINE t)) \<noteq> []"
    and "\<forall>p \<in> set (tl (split NEWLINE t)). trim p = [] \<longrightarrow> p = []"
  shows "chunkText t m = Some [t]"
proof -
  obtain p ps where sp: "split NEWLINE t = p # ps"
    using split_nonempty [of NEWLINE t] by (cases "split NEWLINE t") auto
  from split_join [OF sp] have t: "t = p @ concat (map ((#) NEWLINE) ps)" .
  from assms(2) sp have pb: "trim p \<noteq> []" by simp
  then have pne: "p \<noteq> []" by (auto simp: trim_def)
  with t have tne: "t \<noteq> []" by auto
  with assms(1) have mpos: "0 < m" by (cases t) auto
  from pb t have tb: "trim t \<noteq> []" by (auto simp: trim_empty_iff)
  have "length p \<le> length t" by (subst t) simp
  with assms(1) have "int (length p) \<le> m" by simp
  with pb have first: "paragraphStep m p ([], []) = Some ([], p)"
    by (simp add: paragraphStep_def)
  have "forEach (paragraphStep m) ps ([], p) = Some ([], p @ concat (map ((#) NEWLINE) ps))"
    by (rule paragraphStep_accumulates) (use pne assms(1,3) sp t in auto)
  with first sp t have "forEach (paragraphStep m) (split NEWLINE t) ([], []) = Some ([], t)"
    by simp
  with tne mpos tb show ?thesis by (simp add: chunkText_def)
qed

lemma chunkText_blank_run:
  assumes "NEWLINE \<notin> set a" "NEWLINE \<notin> set b" "trim a \<noteq> []" "trim b \<noteq> []"
    and "int (length a + k + length b) \<le> m"
  shows "chunkText (a @ replicate k NEWLINE @ b) m = Some [a @ replicate k NEWLINE @ b]"
proof (rule chunkText_whole)
  let ?t = "a @ replicate k NEWLINE @ b"
  show "int (length ?t) \<le> m" using assms(5) by simp
  have sp: "split NEWLINE ?t
              = (a @ hd (replicate k [] @ [b])) # tl (replicate k [] @ [b])"
    by (simp add: split_prefix [OF assms(1)] split_replicate split_single [OF assms(2)])
  from assms(3) show "trim (hd (split NEWLINE ?t)) \<noteq> []"
    by (auto simp: sp trim_empty_iff)
  have "set (tl (replicate k [] @ [b])) \<subseteq> {[], b}"
    by (cases k) auto
  with assms(4) show "\<forall>p \<in> set (tl (split NEWLINE ?t)). trim p = [] \<longrightarrow> p = []"
    by (auto simp: sp)
qed

subsection \<open>Blank lines in the accumulator\<close>

lemma forEach_append:
  "forEach body (xs @ ys) st
     = (case forEach body xs st of None \<Rightarrow> None | Some st' \<Rightarrow> forEach body ys st')"
  by (induction xs arbitrary: st) (auto split: option.splits)

lemma paragraphStep_blank_run:
  assumes "cur \<noteq> []" and "\<forall>b \<in> set bs. trim b = []"
    and "int (length cur + length bs) \<le> m"
  shows "forEach (paragraphStep m) bs (chunks, cur)
           = Some (chunks, cur @ replicate (length bs) NEWLINE)"
  using assms
proof (induction bs arbitrary: cur)
  case Nil
  show ?case by simp
next
  case (Cons b bs)
  from Cons.prems have step: "paragraphStep m b (chunks, cur) = Some (chunks, cur @ [NEWLINE])"
    by (simp add: paragraphStep_def)
  have "forEach (paragraphStep m) bs (chunks, cur @ [NEWLINE])
          = Some (chunks, (cur @ [NEWLINE]) @ replicate (length bs) NEWLINE)"
    by (rule Cons.IH) (use Cons.prems in auto)
  with step show ?case by simp
qed

lemma paragraphStep_blank_run_then:
  assumes "cur \<noteq> []" and "\<forall>b \<in> set bs. trim b = []" and "trim q \<noteq> []"
    and "int (length cur + Suc (length bs) + length q) \<le> m"
  shows "forEach (paragraphStep m) (bs @ [q]) (chunks, cur)
           = Some (chunks, cur @ replicate (Suc (length bs)) NEWLINE @ q)"
proof -
  have run: "forEach (paragraphStep m) bs (chunks, cur)
               = Some (chunks, cur @ replicate (length bs) NEWLINE)"
    by (rule paragraphStep_blank_run) (use assms in auto)
  have "paragraphStep m q (chunks, cur @ replicate (length bs) NEWLINE)
          = Some (chunks, (cur @ replicate (length bs) NEWLINE) @ [NEWLINE] @ q)"
    using assms by (simp add: paragraphStep_def)
  also have "(cur @ replicate (length bs) NEWLINE) @ [NEWLINE] @ q
               = cur @ replicate (Suc (length bs)) NEWLINE @ q"
    by (simp add: replicate_append_same)
  finally show ?thesis using run by (simp add: forEach_append)
qed

lemma paragraphStep_skips_blank:
  "\<forall>l \<in> set ls. trim l = [] \<Longrightarrow> forEach (paragraphStep m) ls (chunks, []) = Some (chunks, [])"
  by (induction ls) (simp_all add: paragraphStep_def)

lemma paragraphStep_accumulated:
  assumes "cur \<noteq> []" and "int (length (accumulated cur ps)) \<le> m"
  shows "forEach (paragraphStep m) ps (chunks, cur) = Some (chunks, accumulated cur ps)"
  using assms
proof (induction ps arbitrary: cur)
  case Nil
  show ?case by (simp add: accumulated_def)
next
  case (Cons p ps)
  let ?next = "cur @ NEWLINE # (if blank p then [] else p)"
  have acc: "accumulated cur (p # ps) = accumulated ?next ps"
    by (simp add: accumulated_def)
  have "length ?next \<le> length (accumulated ?next ps)" by (simp add: accumulated_def)
  with Cons.prems(2) acc have fit: "int (length ?next) \<le> m" by simp
  have step: "paragraphStep m p (chunks, cur) = Some (chunks, ?next)"
  proof (cases "trim p = []")
    case True
    with Cons.prems(1) fit show ?thesis by (simp add: paragraphStep_def blank_def)
  next
    case False
    with Cons.prems(1) fit show ?thesis by (simp add: paragraphStep_def blank_def)
  qed
  have "forEach (paragraphStep m) ps (chunks, ?next) = Some (chunks, accumulated ?next ps)"
    by (rule Cons.IH) (use Cons.prems(2) acc in auto)
  with step acc show ?case by simp
qed

lemma chunkText_accumulated:
  assumes "split NEWLINE s = ls @ p # ps" and "\<forall>l \<in> set ls. trim l = []"
    and "trim p \<noteq> []" and "int (length (accumulated p ps)) \<le> m"
  shows "chunkText s m = Some [accumulated p ps]"
proof -
  from assms(3) have pne: "p \<noteq> []" by (auto simp: trim_def)
  have "length p \<le> length (accumulated p ps)" by (simp add: accumulated_def)
  with assms(4) have pm: "int (length p) \<le> m" by simp
  with pne have mpos: "0 < m" by (cases p) auto
  have sne: "s \<noteq> []"
  proof
    assume "s = []"
    with assms(1) have "ls @ p # ps = [[]]" by simp
    then have "p = []" by (cases ls) auto
    with pne show False by simp
  qed
  have skip: "forEach (paragraphStep m) ls ([], []) = Some ([], [])"
    by (rule paragraphStep_skips_blank) (rule assms(2))
  from assms(3) pm have first: "paragraphStep m p ([], []) = Some ([], p)"
    by (simp add: paragraphStep_def)
  have rest: "forEach (paragraphStep m) ps ([], p) = Some ([], accumulated p ps)"
    by (rule paragraphStep_accumulated) (use pne assms(4) in auto)
  from skip first rest assms(1)
  have loop: "forEach (paragraphStep m) (split NEWLINE s) ([], []) = Some ([], accumulated p ps)"
    by (simp add: forEach_append)
  from assms(3) have nb: "trim (accumulated p ps) \<noteq> []"
    by (auto simp: trim_empty_iff accumulated_def)
  then have ne: "accumulated p ps \<noteq> []" by (auto simp: trim_def)
  from loop sne mpos nb ne show ?thesis by (simp add: chunkText_def)
qed

section \<open>The claims\<close>

text \<open>
  C1. For every limit > 0 and every text, \<^verbatim>\<open>chunkText(text, limit)\<close> returns, and every chunk
  of the returned sequence has length at most the limit, the pieces of a force-split word
  included: no chunk of any origin exceeds the limit.
\<close>

theorem chunkText_length_le_limit:
  assumes "0 < limit"
  shows "\<exists>chunks. chunkText text limit = Some chunks \<and>
           (\<forall>c \<in> set chunks. int (length c) \<le> limit)"
  using chunkText_returns [of "text" limit] chunkText_bound [OF assms] by blast

theorem chunkText_length_le_limit_witness:
  "(0::int) < 3 \<and>
   (\<exists>chunks. chunkText (js ''ab cdefgh i'') 3 = Some chunks \<and> chunks \<noteq> [] \<and>
      (\<forall>c \<in> set chunks. int (length c) \<le> 3))"
proof -
  have e: "chunkText (js ''ab cdefgh i'') 3
             = Some [js ''ab'', js ''cde'', js ''fgh'', js ''i'']"
    by code_simp
  show ?thesis using chunkText_length_le_limit [of 3 "js ''ab cdefgh i''"] e by simp
qed

text \<open>
  C2. For every limit > 0 and every non-empty word, \<^verbatim>\<open>splitLongWord(w, limit)\<close> returns a
  sequence of pieces whose concatenation in order is the word; every piece but the last has
  length exactly the limit, and the last has a length between 1 and the limit. When the word
  is longer than the limit there are at least two pieces.
\<close>

theorem splitLongWord_pieces:
  assumes "0 < limit" and "w \<noteq> []"
  shows "\<exists>parts. splitLongWord w limit = Some parts \<and> concat parts = w \<and> parts \<noteq> [] \<and>
           (\<forall>p \<in> set (butlast parts). int (length p) = limit) \<and>
           1 \<le> length (last parts) \<and> int (length (last parts)) \<le> limit \<and>
           (limit < int (length w) \<longrightarrow> 2 \<le> length parts)"
proof -
  from splitLongWord_pos [OF assms] obtain ps r where
    h: "splitLongWord w limit = Some (ps @ [r])" "concat ps @ r = w"
       "\<forall>p \<in> set ps. int (length p) = limit" "r \<noteq> []" "int (length r) \<le> limit"
       "limit < int (length w) \<longrightarrow> ps \<noteq> []"
    by blast
  have "1 \<le> length r" using h(4) by (cases r) simp_all
  moreover have "limit < int (length w) \<longrightarrow> 2 \<le> length (ps @ [r])"
    using h(6) by (cases ps) simp_all
  ultimately show ?thesis using h by simp
qed

theorem splitLongWord_pieces_witness:
  "(0::int) < 3 \<and> js ''abcdefgh'' \<noteq> [] \<and> (3::int) < int (length (js ''abcdefgh'')) \<and>
   (\<exists>parts. splitLongWord (js ''abcdefgh'') 3 = Some parts \<and>
      concat parts = js ''abcdefgh'' \<and> 2 \<le> length parts \<and>
      (\<forall>p \<in> set (butlast parts). int (length p) = 3) \<and>
      1 \<le> length (last parts) \<and> int (length (last parts)) \<le> 3)"
  using splitLongWord_pieces [of 3 "js ''abcdefgh''"] by (auto simp: js_def)

text \<open>
  C3, as the code has it. Nothing is collapsed: every blank line (empty or of white space
  only) met while the accumulator is non-empty adds one newline to it, as long as that
  fits the limit.
  \<^item> From any non-empty accumulator \<open>cur\<close>, a run \<open>bs\<close> of blank paragraphs followed by a
    non-blank paragraph \<open>q\<close>, all within the limit, leaves the emitted chunks as they are
    and the accumulator \<open>cur\<close>, then one newline for each blank paragraph and one more,
    then \<open>q\<close>.
  \<^item> A text whose lines are blank lines \<open>ls\<close>, a non-blank line \<open>p\<close> and any lines \<open>ps\<close>,
    with \<open>accumulated p ps\<close> within the limit, gives that one chunk: the leading blank lines
    are skipped, every later blank line is one embedded newline.
  \<^item> For \<open>a\<close> and \<open>b\<close> non-blank and free of line breaks with \<open>k\<close> line breaks between
    them, within the limit, the text comes back unchanged as the only chunk.
  \<^item> Blank lines are never emitted as a chunk of their own: no returned chunk is blank.
\<close>

theorem chunkText_keeps_blank_lines:
  assumes "0 < limit"
  shows "(cur \<noteq> [] \<and> (\<forall>l \<in> set bs. blank l) \<and> \<not> blank q \<and>
          int (length cur + Suc (length bs) + length q) \<le> limit \<longrightarrow>
            forEach (paragraphStep limit) (bs @ [q]) (chunks, cur)
              = Some (chunks, cur @ replicate (Suc (length bs)) NEWLINE @ q)) \<and>
         (split NEWLINE s = ls @ p # ps \<and> (\<forall>l \<in> set ls. blank l) \<and> \<not> blank p \<and>
          int (length (accumulated p ps)) \<le> limit \<longrightarrow>
            chunkText s limit = Some [accumulated p ps]) \<and>
         (NEWLINE \<notin> set a \<and> NEWLINE \<notin> set b \<and> \<not> blank a \<and> \<not> blank b \<and>
          int (length a + k + length b) \<le> limit \<longrightarrow>
            chunkText (a @ replicate k NEWLINE @ b) limit
              = Some [a @ replicate k NEWLINE @ b]) \<and>
         (\<forall>cs. chunkText t limit = Some cs \<longrightarrow> (\<forall>c \<in> set cs. \<not> blank c))"
proof (intro conjI impI)
  assume "cur \<noteq> [] \<and> (\<forall>l \<in> set bs. blank l) \<and> \<not> blank q \<and>
          int (length cur + Suc (length bs) + length q) \<le> limit"
  then show "forEach (paragraphStep limit) (bs @ [q]) (chunks, cur)
               = Some (chunks, cur @ replicate (Suc (length bs)) NEWLINE @ q)"
    using paragraphStep_blank_run_then [of cur bs q limit chunks] by (simp add: blank_def)
next
  assume "split NEWLINE s = ls @ p # ps \<and> (\<forall>l \<in> set ls. blank l) \<and> \<not> blank p \<and>
          int (length (accumulated p ps)) \<le> limit"
  then show "chunkText s limit = Some [accumulated p ps]"
    using chunkText_accumulated [of s ls p ps limit] by (simp add: blank_def)
next
  assume "NEWLINE \<notin> set a \<and> NEWLINE \<notin> set b \<and> \<not> blank a \<and> \<not> blank b \<and>
          int (length a + k + length b) \<le> limit"
  then show "chunkText (a @ replicate k NEWLINE @ b) limit = Some [a @ replicate k NEWLINE @ b]"
    using chunkText_blank_run [of a b k limit] by (simp add: blank_def)
next
  show "\<forall>cs. chunkText t limit = Some cs \<longrightarrow> (\<forall>c \<in> set cs. \<not> blank c)"
    using chunkText_nonblank [of t limit] by (simp add: blank_def)
qed


theorem chunkText_keeps_blank_lines_witness:
  "(0::int) < 10 \<and>
   js ''a'' \<noteq> [] \<and> blank (js '' '') \<and> blank [] \<and> \<not> blank (js ''b'') \<and>
   int (length (js ''a'') + Suc (length [js '' '', []]) + length (js ''b'')) \<le> 10 \<and>
   forEach (paragraphStep 10) ([js '' '', []] @ [js ''b'']) ([js ''z''], js ''a'')
     = Some ([js ''z''], js ''a'' @ replicate (Suc (length [js '' '', []])) NEWLINE @ js ''b'') \<and>
   split NEWLINE (NEWLINE # js ''a'' @ NEWLINE # js '' '' @ NEWLINE # NEWLINE # js ''b''
                    @ NEWLINE # js ''c'')
     = [[]] @ js ''a'' # [js '' '', [], js ''b'', js ''c''] \<and>
   int (length (accumulated (js ''a'') [js '' '', [], js ''b'', js ''c''])) \<le> 10 \<and>
   chunkText (NEWLINE # js ''a'' @ NEWLINE # js '' '' @ NEWLINE # NEWLINE # js ''b''
                @ NEWLINE # js ''c'') 10
     = Some [accumulated (js ''a'') [js '' '', [], js ''b'', js ''c'']] \<and>
   accumulated (js ''a'') [js '' '', [], js ''b'', js ''c'']
     = js ''a'' @ NEWLINE # NEWLINE # NEWLINE # js ''b'' @ NEWLINE # js ''c'' \<and>
   NEWLINE \<notin> set (js ''a'') \<and> NEWLINE \<notin> set (js ''b'') \<and> \<not> blank (js ''a'') \<and>
   int (length (js ''a'') + 3 + length (js ''b'')) \<le> 10 \<and>
   chunkText (js ''a'' @ replicate 3 NEWLINE @ js ''b'') 10
     = Some [js ''a'' @ replicate 3 NEWLINE @ js ''b''] \<and>
   \<not> blank (js ''a'' @ replicate 3 NEWLINE @ js ''b'')"
proof -
  let ?s = "NEWLINE # js ''a'' @ NEWLINE # js '' '' @ NEWLINE # NEWLINE # js ''b''
              @ NEWLINE # js ''c''"
  let ?t = "js ''a'' @ replicate 3 NEWLINE @ js ''b''"
  note T = chunkText_keeps_blank_lines [where limit = 10 and cur = "js ''a''"
      and bs = "[js '' '', []]" and q = "js ''b''" and chunks = "[js ''z'']"
      and s = ?s and ls = "[[]]" and p = "js ''a''" and ps = "[js '' '', [], js ''b'', js ''c'']"
      and a = "js ''a''" and b = "js ''b''" and k = 3 and t = ?t]
  have pos: "(0::int) < 10" by simp
  have b1: "blank (js '' '')" "blank []" "\<not> blank (js ''a'')" "\<not> blank (js ''b'')"
    by code_simp+
  have n1: "NEWLINE \<notin> set (js ''a'')" "NEWLINE \<notin> set (js ''b'')" "js ''a'' \<noteq> []"
    by code_simp+
  have l1: "int (length (js ''a'') + Suc (length [js '' '', []]) + length (js ''b'')) \<le> 10"
    "int (length (js ''a'') + 3 + length (js ''b'')) \<le> 10"
    by (simp_all add: js_def)
  have sp: "split NEWLINE ?s = [[]] @ js ''a'' # [js '' '', [], js ''b'', js ''c'']"
    by code_simp
  have ac: "accumulated (js ''a'') [js '' '', [], js ''b'', js ''c'']
              = js ''a'' @ NEWLINE # NEWLINE # NEWLINE # js ''b'' @ NEWLINE # js ''c''"
    by code_simp
  have la: "int (length (accumulated (js ''a'') [js '' '', [], js ''b'', js ''c''])) \<le> 10"
    unfolding ac by (simp add: js_def)
  have h1: "js ''a'' \<noteq> [] \<and> (\<forall>l \<in> set [js '' '', []]. blank l) \<and> \<not> blank (js ''b'') \<and>
            int (length (js ''a'') + Suc (length [js '' '', []]) + length (js ''b'')) \<le> 10"
    using b1 n1 l1 by simp
  have h2: "split NEWLINE ?s = [[]] @ js ''a'' # [js '' '', [], js ''b'', js ''c''] \<and>
            (\<forall>l \<in> set [[]]. blank l) \<and> \<not> blank (js ''a'') \<and>
            int (length (accumulated (js ''a'') [js '' '', [], js ''b'', js ''c''])) \<le> 10"
    using sp b1 la by simp
  have h3: "NEWLINE \<notin> set (js ''a'') \<and> NEWLINE \<notin> set (js ''b'') \<and> \<not> blank (js ''a'') \<and>
            \<not> blank (js ''b'') \<and> int (length (js ''a'') + 3 + length (js ''b'')) \<le> 10"
    using b1 n1 l1 by simp
  note c1 = T [OF pos, THEN conjunct1, THEN mp, OF h1]
  note c2 = T [OF pos, THEN conjunct2, THEN conjunct1, THEN mp, OF h2]
  note c3 = T [OF pos, THEN conjunct2, THEN conjunct2, THEN conjunct1, THEN mp, OF h3]
  note c4 = T [OF pos, THEN conjunct2, THEN conjunct2, THEN conjunct2]
  from c3 c4 have nb: "\<not> blank ?t" by simp
  from pos n1 b1 l1 c1 sp la c2 ac c3 nb show ?thesis by (intro conjI)
qed

text \<open>
  C3 as stated fails: with two consecutive blank lines between \<^verbatim>\<open>a\<close> and \<^verbatim>\<open>b\<close> the only
  chunk returned is the text itself, which embeds both blank lines (three newlines in a
  row), not one.
\<close>

theorem chunkText_blank_lines_counterexample:
  "chunkText (js ''a'' @ [NEWLINE, NEWLINE, NEWLINE] @ js ''b'') 10
     = Some [js ''a'' @ [NEWLINE, NEWLINE, NEWLINE] @ js ''b''] \<and>
   embeddedBlankLines (js ''a'' @ [NEWLINE, NEWLINE, NEWLINE] @ js ''b'') = 2 \<and>
   \<not> embeddedBlankLines (js ''a'' @ [NEWLINE, NEWLINE, NEWLINE] @ js ''b'') \<le> 1"
  by code_simp

text \<open>
  C4, as the code has it. For every limit > 0 and every text shorter than the limit whose
  first line is not blank and whose blank lines are all empty, \<^verbatim>\<open>chunkText(text, limit)\<close>
  returns exactly the one-element sequence of the text. (Blank lines before the first
  non-blank line are skipped, and a blank line is kept as a bare newline, without the
  white space it held.)
\<close>

theorem chunkText_short_text:
  assumes "0 < limit" and "int (length text) < limit"
    and "\<not> blank (hd (split NEWLINE text))"
    and "\<forall>p \<in> set (split NEWLINE text). blank p \<longrightarrow> p = []"
  shows "chunkText text limit = Some [text]"
proof (rule chunkText_whole)
  show "int (length text) \<le> limit" using assms(2) by simp
  show "trim (hd (split NEWLINE text)) \<noteq> []" using assms(3) by (simp add: blank_def)
  show "\<forall>p \<in> set (tl (split NEWLINE text)). trim p = [] \<longrightarrow> p = []"
    using assms(4) by (auto simp: blank_def dest: list.set_sel(2) [OF split_nonempty])
qed

theorem chunkText_short_text_witness:
  "(0::int) < 20 \<and> int (length (js ''hello world'' @ [NEWLINE, NEWLINE] @ js ''x'')) < 20 \<and>
   \<not> blank (hd (split NEWLINE (js ''hello world'' @ [NEWLINE, NEWLINE] @ js ''x''))) \<and>
   split NEWLINE (js ''hello world'' @ [NEWLINE, NEWLINE] @ js ''x'')
     = [js ''hello world'', [], js ''x''] \<and>
   \<not> blank (js ''hello world'') \<and> \<not> blank (js ''x'') \<and>
   chunkText (js ''hello world'' @ [NEWLINE, NEWLINE] @ js ''x'') 20
     = Some [js ''hello world'' @ [NEWLINE, NEWLINE] @ js ''x'']"
proof -
  let ?t = "js ''hello world'' @ [NEWLINE, NEWLINE] @ js ''x''"
  have sp: "split NEWLINE ?t = [js ''hello world'', [], js ''x'']" by code_simp
  have b: "\<not> blank (js ''hello world'')" "\<not> blank (js ''x'')" by code_simp+
  have h12: "(0::int) < 20" "int (length ?t) < 20" by (simp_all add: js_def)
  have h34: "\<not> blank (hd (split NEWLINE ?t))"
    "\<forall>p \<in> set (split NEWLINE ?t). blank p \<longrightarrow> p = []"
    unfolding sp using b by simp_all
  note h = h12 h34
  from chunkText_short_text [OF h] h12 h34(1) sp b show ?thesis by blast
qed

text \<open>
  C4 as stated fails: a non-blank text shorter than the limit that starts with a line break
  loses it.
\<close>

theorem chunkText_short_text_counterexample:
  "int (length (NEWLINE # js ''a'')) < 10 \<and> \<not> blank (NEWLINE # js ''a'') \<and>
   chunkText (NEWLINE # js ''a'') 10 = Some [js ''a''] \<and>
   chunkText (NEWLINE # js ''a'') 10 \<noteq> Some [NEWLINE # js ''a'']"
  by code_simp

text \<open>
  C5. For every limit > 0 and every text, \<^verbatim>\<open>chunkText(text, limit)\<close> returns, and the
  concatenation of the returned chunks, in order, with every white-space character removed,
  is the text with every white-space character removed: no other character is dropped,
  duplicated or moved.
\<close>

theorem chunkText_preserves_content:
  assumes "0 < limit"
  shows "\<exists>chunks. chunkText text limit = Some chunks \<and>
           stripWhiteSpace (concat chunks) = stripWhiteSpace text"
  using chunkText_returns [of "text" limit] chunkText_content [OF assms] by blast

theorem chunkText_preserves_content_witness:
  "(0::int) < 3 \<and>
   (\<exists>chunks. chunkText (js ''ab  cdefgh i'' @ [NEWLINE, NEWLINE] @ js ''j'') 3 = Some chunks \<and>
      stripWhiteSpace (concat chunks) = js ''abcdefghij'')"
proof -
  have "stripWhiteSpace (js ''ab  cdefgh i'' @ [NEWLINE, NEWLINE] @ js ''j'')
          = js ''abcdefghij''"
    by code_simp
  then show ?thesis
    using chunkText_preserves_content [of 3 "js ''ab  cdefgh i'' @ [NEWLINE, NEWLINE] @ js ''j''"]
    by simp
qed

text \<open>
  C6. If the text is empty or the limit is not positive, \<^verbatim>\<open>chunkText(text, limit)\<close> returns
  the empty sequence; in particular for the empty text with any limit, and for any text
  with the limit 0.
\<close>

theorem chunkText_degenerate:
  "(text = [] \<or> limit \<le> 0 \<longrightarrow> chunkText text limit = Some []) \<and>
   chunkText [] limit = Some [] \<and> chunkText text 0 = Some []"
  by (simp add: chunkText_def)

theorem chunkText_degenerate_witness:
  "(js ''abc'' = [] \<or> (-1::int) \<le> 0) \<and> chunkText (js ''abc'') (-1) = Some []"
  using chunkText_degenerate [of "js ''abc''" "-1"] by simp

text \<open>
  C7. For every text and every limit, \<^verbatim>\<open>chunkText(text, limit)\<close> returns, and no element of
  the returned sequence is the empty string or made of white-space characters only.
\<close>

theorem chunkText_no_blank_chunk:
  "\<exists>chunks. chunkText text limit = Some chunks \<and>
     (\<forall>c \<in> set chunks. c \<noteq> [] \<and> (\<exists>ch \<in> set c. \<not> isWhiteSpace ch))"
proof -
  obtain chunks where c: "chunkText text limit = Some chunks"
    using chunkText_returns by blast
  from chunkText_nonblank [OF c] have "\<forall>c \<in> set chunks. \<exists>ch \<in> set c. \<not> isWhiteSpace ch"
    by (simp add: trim_empty_iff)
  then have "\<forall>c \<in> set chunks. c \<noteq> [] \<and> (\<exists>ch \<in> set c. \<not> isWhiteSpace ch)" by auto
  with c show ?thesis by blast
qed

theorem chunkText_no_blank_chunk_witness:
  "\<exists>chunks. chunkText ([0x09, 0x09, 0x09, SPACE] @ js ''ab'') 2 = Some chunks \<and>
     chunks = [js ''ab''] \<and>
     (\<forall>c \<in> set chunks. c \<noteq> [] \<and> (\<exists>ch \<in> set c. \<not> isWhiteSpace ch))"
proof -
  have e: "chunkText ([0x09, 0x09, 0x09, SPACE] @ js ''ab'') 2 = Some [js ''ab'']"
    by code_simp
  show ?thesis
    using chunkText_no_blank_chunk [of "[0x09, 0x09, 0x09, SPACE] @ js ''ab''" 2] e by simp
qed

text \<open>
  C8. \<^verbatim>\<open>splitLongWord\<close>, \<^verbatim>\<open>splitParagraphByWords\<close> and \<^verbatim>\<open>chunkText\<close> return on every string
  and every integer limit, positive or not. The \<^verbatim>\<open>while\<close> loop of \<^verbatim>\<open>splitLongWord\<close> returns
  from every state when the limit is positive, each of its iterations shortens the
  remaining word by exactly limit characters, and with a limit that is not positive
  \<^verbatim>\<open>splitLongWord\<close> returns the empty sequence without entering it.
\<close>

theorem chunking_terminates:
  "(\<exists>parts. splitLongWord w limit = Some parts) \<and>
   (\<exists>chunks. splitParagraphByWords paragraph limit = Some chunks) \<and>
   (\<exists>chunks. chunkText text limit = Some chunks) \<and>
   (0 < limit \<longrightarrow> (\<exists>r. splitLongWord_while limit parts currentPart = Some r)) \<and>
   (0 < limit \<and> limit < int (length currentPart) \<longrightarrow>
      length (substring_from currentPart limit) + nat limit = length currentPart \<and>
      length (substring_from currentPart limit) < length currentPart) \<and>
   (limit \<le> 0 \<longrightarrow> splitLongWord w limit = Some [])"
proof -
  have "0 < limit \<longrightarrow> (\<exists>r. splitLongWord_while limit parts currentPart = Some r)"
    using splitLongWord_while_total [of limit parts currentPart] by blast
  moreover have "0 < limit \<and> limit < int (length currentPart) \<longrightarrow>
      length (substring_from currentPart limit) + nat limit = length currentPart \<and>
      length (substring_from currentPart limit) < length currentPart"
    by (auto simp: substring_from_drop)
  ultimately show ?thesis
    using splitLongWord_returns [of w limit] splitParagraphByWords_returns [of "paragraph" limit]
      chunkText_returns [of "text" limit] splitLongWord_degenerate [of w limit]
    by blast
qed

theorem chunking_terminates_witness:
  "((0::int) < 2 \<and> (2::int) < int (length (js ''abcde'')) \<and>
    (\<exists>r. splitLongWord_while 2 [] (js ''abcde'') = Some r) \<and>
    length (substring_from (js ''abcde'') 2) + nat 2 = length (js ''abcde'')) \<and>
   ((-3::int) \<le> 0 \<and> splitLongWord (js ''abcde'') (-3) = Some [])"
  using chunking_terminates [of "js ''abcde''" 2 "js ''abcde''" "js ''abcde''" "[]" "js ''abcde''"]
    chunking_terminates [of "js ''abcde''" "-3" "js ''abcde''" "js ''abcde''" "[]" "js ''abcde''"]
  by (simp add: js_def)

text \<open>
  C9. \<^verbatim>\<open>splitLongWord\<close> returns the empty sequence for the empty word and for a limit that is
  not positive, and the one-element sequence of the word itself for a non-empty word no
  longer than the limit.
\<close>

theorem splitLongWord_outside_precondition:
  "(w = [] \<or> limit \<le> 0 \<longrightarrow> splitLongWord w limit = Some []) \<and>
   (1 \<le> length w \<and> int (length w) \<le> limit \<longrightarrow> splitLongWord w limit = Some [w])"
proof -
  have "splitLongWord w limit = Some [w]" if a: "1 \<le> length w" "int (length w) \<le> limit"
  proof -
    from a have "splitLongWord_while limit [] w = Some ([], w)"
      by (subst splitLongWord_while.simps) simp
    with a show ?thesis by (auto simp: splitLongWord_def)
  qed
  then show ?thesis by (simp add: splitLongWord_degenerate)
qed

theorem splitLongWord_outside_precondition_witness:
  "(([]::jsstring) = [] \<or> (5::int) \<le> 0) \<and> splitLongWord [] 5 = Some [] \<and>
   (js ''abc'' = [] \<or> (0::int) \<le> 0) \<and> splitLongWord (js ''abc'') 0 = Some [] \<and>
   (1 \<le> length (js ''abc'') \<and> int (length (js ''abc'')) \<le> 3) \<and>
   splitLongWord (js ''abc'') 3 = Some [js ''abc'']"
  using splitLongWord_outside_precondition [of "[]" 5]
    splitLongWord_outside_precondition [of "js ''abc''" 0]
    splitLongWord_outside_precondition [of "js ''abc''" 3]
  by (simp add: js_def)


text \<open>
  C10. For every limit > 0 and every paragraph, \<^verbatim>\<open>splitParagraphByWords(paragraph, limit)\<close>
  returns, and no returned chunk starts with a space, ends with a space or holds two spaces
  in a row: runs of spaces of the paragraph become single separating spaces.
\<close>

theorem splitParagraphByWords_spacing:
  assumes "0 < limit"
  shows "\<exists>chunks. splitParagraphByWords paragraph limit = Some chunks \<and>
           (\<forall>c \<in> set chunks. \<not> leadingSpace c \<and> \<not> trailingSpace c \<and> \<not> doubleSpace c)"
  using splitParagraphByWords_returns [of "paragraph" limit]
    splitParagraphByWords_tidy [OF assms, of "paragraph"]
  by (auto simp: tidy_def)

theorem splitParagraphByWords_spacing_witness:
  "(0::int) < 5 \<and>
   (\<exists>chunks. splitParagraphByWords (js ''  a   b  cdefgh '') 5 = Some chunks \<and>
      chunks = [js ''a b'', js ''cdefg'', js ''h''] \<and>
      (\<forall>c \<in> set chunks. \<not> leadingSpace c \<and> \<not> trailingSpace c \<and> \<not> doubleSpace c))"
proof -
  have e: "splitParagraphByWords (js ''  a   b  cdefgh '') 5
             = Some [js ''a b'', js ''cdefg'', js ''h'']"
    by code_simp
  show ?thesis
    using splitParagraphByWords_spacing [of 5 "js ''  a   b  cdefgh ''"] e by simp
qed

end
